theory Spec2Isabelle
  imports Main "HOL-Library.Word" "HOL-Library.Sublist"
begin

section \<open>Time\<close>

text \<open>
  A \<open>time.Time\<close> is an instant in nanoseconds, a \<open>time.Duration\<close> a signed 64-bit
  count of nanoseconds. \<open>Time.Sub\<close> saturates at the largest and smallest duration,
  unary minus on a duration wraps, and a timer armed with a duration that is not
  positive fires at once.
\<close>

type_synonym time = int
type_synonym duration = int

definition maxDuration :: duration where
  "maxDuration = 2 ^ 63 - 1"

definition minDuration :: duration where
  "minDuration = - (2 ^ 63)"

definition time_Sub :: "time \<Rightarrow> time \<Rightarrow> duration" where
  "time_Sub t u =
     (if t - u > maxDuration then maxDuration
      else if t - u < minDuration then minDuration
      else t - u)"

definition time_Until :: "time \<Rightarrow> time \<Rightarrow> duration" where
  \<comment> \<open>\<open>time.Until(t)\<close> read at the instant \<open>now\<close>\<close>
  "time_Until now t = time_Sub t now"

definition time_After :: "time \<Rightarrow> duration \<Rightarrow> time" where
  \<comment> \<open>the instant at which the channel of \<open>time.After(d)\<close>, armed at \<open>now\<close>, delivers\<close>
  "time_After now d = now + max d 0"

definition neg_duration :: "duration \<Rightarrow> duration" where
  \<comment> \<open>\<open>-delay\<close> on an int64\<close>
  "neg_duration d = (if d = minDuration then minDuration else - d)"

section \<open>Errors and log records\<close>

datatype wait_status = Exited nat | Signaled string

datatype go_error = io_EOF | ErrorString string | ExitError wait_status

fun show_nat :: "nat \<Rightarrow> string" where
  "show_nat n =
     (if n < 10 then [char_of (48 + n)]
      else show_nat (n div 10) @ [char_of (48 + n mod 10)])"

declare show_nat.simps [simp del]

fun status_text :: "wait_status \<Rightarrow> string" where
  "status_text (Exited n) = ''exit status '' @ show_nat n"
| "status_text (Signaled s) = ''signal: '' @ s"

fun err_text :: "go_error \<Rightarrow> string" where
  "err_text io_EOF = ''EOF''"
| "err_text (ErrorString s) = s"
| "err_text (ExitError st) = status_text st"

definition os_ErrClosed_text :: string where
  "os_ErrClosed_text = ''file already closed''"

fun Contains :: "string \<Rightarrow> string \<Rightarrow> bool" where
  "Contains [] substr = (substr = [])"
| "Contains (c # s) substr = (prefix substr (c # s) \<or> Contains s substr)"

datatype level = DebugLevel | InfoLevel | WarnLevel | ErrorLevel

datatype field = FStr string | FUint "64 word"

type_synonym logger = "(string \<times> field) list"

fun WithField :: "logger \<Rightarrow> string \<Rightarrow> field \<Rightarrow> logger" where
  "WithField [] k v = [(k, v)]"
| "WithField ((k', v') # lg) k v =
     (if k' = k then (k, v) # lg else (k', v') # WithField lg k v)"

datatype message =
    starting
  | output_line string
  | line_exceeded_buffer
  | failed_to_read_pipe go_error
  | failed_to_close_pipe go_error
  | error_value go_error
  | job_succeeded
  | still_running time duration
  | will_run_next time
  | took_too_long duration
  | shutting_down

type_synonym entry = "logger \<times> level \<times> message"

definition entry_level :: "entry \<Rightarrow> level" where
  "entry_level e = fst (snd e)"

section \<open>Output drain (startReaderDrain)\<close>

definition READ_BUFFER_SIZE :: nat where
  "READ_BUFFER_SIZE = 64 * 1024"

text \<open>
  The reader is given by the results of its successive \<open>ReadLine\<close> calls: a line with
  its \<open>isPrefix\<close> flag, or an error. The buffered reader hands out at most
  \<open>READ_BUFFER_SIZE\<close> bytes at a time and sets \<open>isPrefix\<close> on a piece that does not end
  its line. A reader whose results run out without an error blocks the drain for ever:
  the drain returns nothing. The \<open>WaitGroup\<close> is not a value of the model: a drain that
  returns has called \<open>wg.Done()\<close>, and \<open>wg.Wait()\<close> returns when both drains have.
\<close>

datatype read_result = Line string bool | ReadErr go_error

definition read_error_entries :: "logger \<Rightarrow> go_error \<Rightarrow> entry list" where
  "read_error_entries readerLogger err =
     (if Contains (err_text err) os_ErrClosed_text then []
      else if err = io_EOF then []
      else [(readerLogger, ErrorLevel, failed_to_read_pipe err)])"

fun drain_loop :: "logger \<Rightarrow> read_result list \<Rightarrow> entry list option" where
  "drain_loop readerLogger [] = None"
| "drain_loop readerLogger (ReadErr err # rs) = Some (read_error_entries readerLogger err)"
| "drain_loop readerLogger (Line l isPrefix # rs) =
     map_option
       (\<lambda>es. (readerLogger, InfoLevel, output_line l)
             # (if isPrefix then [(readerLogger, WarnLevel, line_exceeded_buffer)] else [])
             @ es)
       (drain_loop readerLogger rs)"

definition startReaderDrain ::
  "logger \<Rightarrow> read_result list \<Rightarrow> go_error option \<Rightarrow> entry list option" where
  \<comment> \<open>the entries of the goroutine once it has called \<open>wg.Done()\<close>; \<open>None\<close>: it never does\<close>
  "startReaderDrain readerLogger reads close_result =
     map_option
       (\<lambda>es. es @ (case close_result of
                     None \<Rightarrow> []
                   | Some err \<Rightarrow> [(readerLogger, ErrorLevel, failed_to_close_pipe err)]))
       (drain_loop readerLogger reads)"

section \<open>Job executor (runJob)\<close>

record crontab_Context =
  Shell :: string
  Environ :: "(string \<times> string) list"

record exec_Cmd =
  Path :: string
  Args :: "string list"
  Setpgid :: bool
  Env :: "string list"

definition env_entry :: "string \<times> string \<Rightarrow> string" where
  \<comment> \<open>\<open>fmt.Sprintf("%s=%s", k, v)\<close>\<close>
  "env_entry kv = fst kv @ ''='' @ snd kv"

definition job_cmd :: "string list \<Rightarrow> crontab_Context \<Rightarrow> string \<Rightarrow> exec_Cmd" where
  "job_cmd os_Environ cronCtx command =
     \<lparr>Path = Shell cronCtx,
      Args = [Shell cronCtx, ''-c'', command],
      Setpgid = True,
      Env = foldl (\<lambda>env kv. env @ [env_entry kv]) os_Environ (Environ cronCtx)\<rparr>"


text \<open>
  The operating system's side of one call of \<open>runJob\<close>: whether the pipes and the start
  succeed, what the two pipes deliver, how the process ends (\<open>None\<close>: it never does),
  and how long the call lasts when it returns.
\<close>

record subprocess =
  stdout_pipe_error :: "go_error option"
  stderr_pipe_error :: "go_error option"
  start_error :: "go_error option"
  stdout_reads :: "read_result list"
  stderr_reads :: "read_result list"
  stdout_close :: "go_error option"
  stderr_close :: "go_error option"
  exit_status :: "wait_status option"
  elapsed :: nat

definition cmd_Wait :: "wait_status \<Rightarrow> go_error option" where
  \<comment> \<open>\<open>cmd.Wait()\<close>: nil exactly on exit status zero, an \<open>*ExitError\<close> otherwise\<close>
  "cmd_Wait st = (if st = Exited 0 then None else Some (ExitError st))"

text \<open>
  The calls of \<open>runJob\<close> that can fail or block, in the order the goroutine makes them.
  Its outcome is either the value it returns, with the calls it made, or, when it never
  returns, the calls it made up to the one it stays in: \<open>wg.Wait()\<close> while a drain has
  not completed, \<open>cmd.Wait()\<close> while the process has not terminated.
\<close>

datatype run_call = call_StdoutPipe | call_StderrPipe | call_Start | call_wg_Wait | call_cmd_Wait

record job_run =
  run_error :: "go_error option"
  run_entries :: "entry list"
  run_cmd :: exec_Cmd
  run_calls :: "run_call list"

datatype run_outcome = Returned job_run | Stuck "run_call list"

definition runJob_outcome ::
  "string list \<Rightarrow> subprocess \<Rightarrow> crontab_Context \<Rightarrow> string \<Rightarrow> logger \<Rightarrow> run_outcome" where
  "runJob_outcome os_Environ p cronCtx command jobLogger =
     (let cmd = job_cmd os_Environ cronCtx command;
          early = (\<lambda>calls err. Returned \<lparr>run_error = Some err,
                                  run_entries = [(jobLogger, InfoLevel, starting)],
                                  run_cmd = cmd, run_calls = calls\<rparr>);
          calls1 = [call_StdoutPipe];
          calls2 = calls1 @ [call_StderrPipe];
          calls3 = calls2 @ [call_Start];
          calls4 = calls3 @ [call_wg_Wait];
          calls5 = calls4 @ [call_cmd_Wait]
      in case stdout_pipe_error p of Some err \<Rightarrow> early calls1 err | None \<Rightarrow>
         (case stderr_pipe_error p of Some err \<Rightarrow> early calls2 err | None \<Rightarrow>
         (case start_error p of Some err \<Rightarrow> early calls3 err | None \<Rightarrow>
         (case startReaderDrain (WithField jobLogger ''channel'' (FStr ''stdout''))
                 (stdout_reads p) (stdout_close p) of
            None \<Rightarrow> Stuck calls4 | Some out_entries \<Rightarrow>
         (case startReaderDrain (WithField jobLogger ''channel'' (FStr ''stderr''))
                 (stderr_reads p) (stderr_close p) of
            None \<Rightarrow> Stuck calls4 | Some err_entries \<Rightarrow>
         (case exit_status p of None \<Rightarrow> Stuck calls5 | Some st \<Rightarrow>
            Returned \<lparr>run_error =
                    (case cmd_Wait st of
                       None \<Rightarrow> None
                     | Some err \<Rightarrow> Some (ErrorString (''error running command: '' @ err_text err))),
                  run_entries = (jobLogger, InfoLevel, starting) # out_entries @ err_entries,
                  run_cmd = cmd, run_calls = calls5\<rparr>))))))"

definition runJob ::
  "string list \<Rightarrow> subprocess \<Rightarrow> crontab_Context \<Rightarrow> string \<Rightarrow> logger \<Rightarrow> job_run option" where
  \<comment> \<open>what the caller of \<open>runJob\<close> gets: the value returned, if the call returns\<close>
  "runJob os_Environ p cronCtx command jobLogger =
     (case runJob_outcome os_Environ p cronCtx command jobLogger of
        Returned r \<Rightarrow> Some r
      | Stuck calls \<Rightarrow> None)"

section \<open>Select over a timer and one other channel\<close>

text \<open>
  Both \<open>select\<close> statements of the program wait on the channel of \<open>time.After\<close> and on one
  other channel (\<open>ctx.Done()\<close> in the monitor, \<open>exitChan\<close> in the scheduler loop). The
  select is entered at \<open>now\<close>; the timer delivers at \<open>fires\<close>; the other channel can be
  received from at \<open>other\<close> (\<open>None\<close>: never). The case that is ready first runs; when both
  are ready at the same instant Go picks one of them, which \<open>timer_first\<close> decides here.
  The result says whether the timer's case runs, and when the select returns.
\<close>

definition select_timer :: "bool \<Rightarrow> time \<Rightarrow> time option \<Rightarrow> time \<Rightarrow> bool \<times> time" where
  "select_timer timer_first now other fires =
     (case other of
        None \<Rightarrow> (True, fires)
      | Some r \<Rightarrow>
          (let ready = max r now
           in if fires < ready then (True, fires)
              else if ready < fires then (False, ready)
              else (timer_first, fires)))"

section \<open>Overrun monitor (monitorJob)\<close>

text \<open>
  The monitor is a goroutine of its own. Its behaviour is a function of the schedule, of
  \<open>t0\<close>, of the instant it starts and of the instant its context is cancelled (\<open>None\<close>:
  never). It returns its warnings, each with the instant it is emitted. The loop has no
  bound in the source: the model takes fuel, and \<open>None\<close> says the fuel ran out.
\<close>

fun monitor_loop ::
  "nat \<Rightarrow> (nat \<Rightarrow> bool) \<Rightarrow> time option \<Rightarrow> (time \<Rightarrow> time) \<Rightarrow> time \<Rightarrow> logger
     \<Rightarrow> time \<Rightarrow> time \<Rightarrow> nat \<Rightarrow> (time \<times> entry) list option" where
  "monitor_loop 0 timer_first done expression t0 jobLogger t now k = None"
| "monitor_loop (Suc fuel) timer_first done expression t0 jobLogger t now k =
     (let t' = expression t;
          (timer, now') = select_timer (timer_first k) now done
                            (time_After now (time_Until now t'))
      in if timer
         then map_option
                (Cons (now', jobLogger, WarnLevel, still_running t0 (time_Sub t' t0)))
                (monitor_loop fuel timer_first done expression t0 jobLogger t' now' (Suc k))
         else Some [])"

definition monitorJob ::
  "nat \<Rightarrow> (nat \<Rightarrow> bool) \<Rightarrow> time option \<Rightarrow> (time \<Rightarrow> time) \<Rightarrow> time \<Rightarrow> logger \<Rightarrow> time
     \<Rightarrow> (time \<times> entry) list option" where
  "monitorJob fuel timer_first done expression t0 jobLogger started =
     monitor_loop fuel timer_first done expression t0 jobLogger t0 started 0"

section \<open>Scheduler loop (StartJob)\<close>

record crontab_Job =
  Schedule :: string
  Command :: string
  Position :: int
  Expression :: "time \<Rightarrow> time"

text \<open>
  The arguments of \<open>StartJob\<close>, and the two identifiers its body uses without declaring
  them: \<open>cronCtx\<close> and \<open>jobLogger\<close> in the closure that starts the monitor. The argument
  named \<open>context\<close> in the source is \<open>context_arg\<close> here. The call in \<open>main\<close> passes no
  value for \<open>overlapping\<close>; it stays an argument.
\<close>

record params =
  context_arg :: crontab_Context
  job :: crontab_Job
  cronLogger :: logger
  overlapping :: bool
  cronCtx :: crontab_Context
  jobLogger :: logger

text \<open>
  What the loop reads from outside: the clock when the goroutine starts, the supervisor's
  environment, the subprocess behind the k-th call of \<open>runJob\<close>, the instant at which the
  coordinator sends on \<open>exitChan\<close> (\<open>None\<close>: never), and the choice of the loop's k-th
  select when both of its cases are ready. The clock advances only while the loop waits
  in its select or in a call of \<open>runJob\<close>.
\<close>

record world =
  start_time :: time
  os_Environ :: "string list"
  subprocesses :: "nat \<Rightarrow> subprocess"
  stop_sent :: "time option"
  timer_first :: "nat \<Rightarrow> bool"

record monitor =
  mon_t0 :: time
  mon_started :: time
  mon_done :: "time option"
  mon_logger :: logger

text \<open>
  One record per call of \<open>runJob\<close>: when it starts, when it returns (\<open>None\<close>: never), what
  it was given, what it returned with the entries its goroutine logged, whether it was
  started with \<open>go\<close>, and the monitor started for it, if any. The entries of a call
  are those of a call that returns. A call that never returns leaves the loop
  \<open>Blocked\<close>: the goroutine stays inside it.
\<close>

record invocation =
  inv_start :: time
  inv_end :: "time option"
  inv_ctx :: crontab_Context
  inv_command :: string
  inv_logger :: logger
  inv_run :: "job_run option"
  inv_entries :: "entry list"
  inv_detached :: bool
  inv_monitor :: "monitor option"

datatype status = Running | Stopped | Blocked

record sched =
  nextRun :: time
  cronIteration :: "64 word"
  clock :: time
  calls :: nat
  selects :: nat
  entries :: "entry list"
  invocations :: "invocation list"
  status :: status

definition returns_at :: "time \<Rightarrow> subprocess \<Rightarrow> job_run option \<Rightarrow> time option" where
  "returns_at now p r = (case r of None \<Rightarrow> None | Some jr \<Rightarrow> Some (now + int (elapsed p)))"

definition monitored_call :: "params \<Rightarrow> world \<Rightarrow> sched \<Rightarrow> sched" where
  \<comment> \<open>the closure \<open>err := func() error { ... }()\<close>: the result \<open>err\<close> is not read again\<close>
  "monitored_call P W s =
     (let p = subprocesses W (calls s);
          r = runJob (os_Environ W) p (cronCtx P) (Command (job P)) (jobLogger P);
          done = returns_at (clock s) p r;
          es = (case r of None \<Rightarrow> [] | Some jr \<Rightarrow> run_entries jr);
          inv = \<lparr>inv_start = clock s, inv_end = done, inv_ctx = cronCtx P,
                 inv_command = Command (job P), inv_logger = jobLogger P, inv_run = r,
                 inv_entries = es, inv_detached = False,
                 inv_monitor = Some \<lparr>mon_t0 = nextRun s, mon_started = clock s,
                                       mon_done = done, mon_logger = jobLogger P\<rparr>\<rparr>
      in s\<lparr>calls := Suc (calls s),
           invocations := invocations s @ [inv],
           entries := entries s @ es,
           clock := (case done of None \<Rightarrow> clock s | Some t \<Rightarrow> t),
           status := (case done of None \<Rightarrow> Blocked | Some t \<Rightarrow> Running)\<rparr>)"

definition run :: "params \<Rightarrow> world \<Rightarrow> nat \<Rightarrow> 64 word \<Rightarrow> job_run option \<times> entry list" where
  \<comment> \<open>the closure \<open>run\<close>, on the subprocess of index \<open>k\<close>\<close>
  "run P W k iteration =
     (let lg = WithField (cronLogger P) ''iteration'' (FUint iteration);
          r = runJob (os_Environ W) (subprocesses W k) (context_arg P) (Command (job P)) lg
      in (r, case r of
               None \<Rightarrow> []
             | Some jr \<Rightarrow>
                 run_entries jr @
                 [case run_error jr of
                    None \<Rightarrow> (lg, InfoLevel, job_succeeded)
                  | Some err \<Rightarrow> (lg, ErrorLevel, error_value err)]))"

definition dispatch :: "params \<Rightarrow> world \<Rightarrow> sched \<Rightarrow> sched" where
  \<comment> \<open>\<open>if overlapping { go run(cronIteration) } else { run(cronIteration) }\<close>\<close>
  "dispatch P W s =
     (let p = subprocesses W (calls s);
          (r, es) = run P W (calls s) (cronIteration s);
          done = returns_at (clock s) p r;
          inv = \<lparr>inv_start = clock s, inv_end = done, inv_ctx = context_arg P,
                 inv_command = Command (job P),
                 inv_logger = WithField (cronLogger P) ''iteration'' (FUint (cronIteration s)),
                 inv_run = r, inv_entries = es, inv_detached = overlapping P,
                 inv_monitor = None\<rparr>;
          s' = s\<lparr>calls := Suc (calls s), invocations := invocations s @ [inv]\<rparr>
      in if overlapping P then s'
         else s'\<lparr>entries := entries s @ es,
                 clock := (case done of None \<Rightarrow> clock s | Some t \<Rightarrow> t),
                 status := (case done of None \<Rightarrow> Blocked | Some t \<Rightarrow> Running)\<rparr>)"

definition fire :: "params \<Rightarrow> world \<Rightarrow> sched \<Rightarrow> sched" where
  "fire P W s =
     (let s1 = monitored_call P W s
      in if status s1 = Blocked then s1
         else (let s2 = dispatch P W s1
               in if status s2 = Blocked then s2
                  else s2\<lparr>cronIteration := cronIteration s2 + 1\<rparr>))"

definition step :: "params \<Rightarrow> world \<Rightarrow> sched \<Rightarrow> sched" where
  \<comment> \<open>one pass through the body of the \<open>for\<close> loop\<close>
  "step P W s =
     (let next_run = Expression (job P) (nextRun s);
          s1 = s\<lparr>nextRun := next_run,
                 entries := entries s @ [(cronLogger P, DebugLevel, will_run_next next_run)]\<rparr>;
          delay = time_Sub next_run (clock s)
      in if delay < 0 \<and> \<not> overlapping P
         then s1\<lparr>entries := entries s1 @
                     [(cronLogger P, WarnLevel, took_too_long (neg_duration delay))],
                 nextRun := clock s\<rparr>
         else (let (timer, now') = select_timer (timer_first W (selects s)) (clock s)
                                     (stop_sent W) (time_After (clock s) delay);
                   s2 = s1\<lparr>selects := Suc (selects s), clock := now'\<rparr>
               in if timer then fire P W s2
                  else s2\<lparr>entries := entries s2 @ [(cronLogger P, DebugLevel, shutting_down)],
                          status := Stopped\<rparr>))"

definition init :: "world \<Rightarrow> sched" where
  "init W = \<lparr>nextRun = start_time W, cronIteration = 0, clock = start_time W, calls = 0,
             selects = 0, entries = [], invocations = [], status = Running\<rparr>"

fun loop :: "nat \<Rightarrow> params \<Rightarrow> world \<Rightarrow> sched \<Rightarrow> sched" where
  "loop 0 P W s = s"
| "loop (Suc n) P W s = (if status s = Running then loop n P W (step P W s) else s)"

definition StartJob :: "params \<Rightarrow> world \<Rightarrow> nat \<Rightarrow> sched" where
  \<comment> \<open>the goroutine of \<open>StartJob\<close> after at most \<open>n\<close> passes through the loop body\<close>
  "StartJob P W n = loop n P W (init W)"

section \<open>Shutdown (main)\<close>

text \<open>
  A buffered channel holds at most \<open>cap\<close> values. A send on a full channel blocks the
  sender (\<open>None\<close>) until a receiver takes a value.
\<close>

record 'a chan =
  cap :: nat
  buf :: "'a list"

definition make_chan :: "nat \<Rightarrow> 'a chan" where
  "make_chan n = \<lparr>cap = n, buf = []\<rparr>"

definition chan_send :: "'a \<Rightarrow> 'a chan \<Rightarrow> 'a chan option" where
  "chan_send v c = (if length (buf c) < cap c then Some (c\<lparr>buf := buf c @ [v]\<rparr>) else None)"

definition chan_recv :: "'a chan \<Rightarrow> ('a \<times> 'a chan) option" where
  "chan_recv c = (case buf c of [] \<Rightarrow> None | v # vs \<Rightarrow> Some (v, c\<lparr>buf := vs\<rparr>))"

definition make_exitChans :: "crontab_Job list \<Rightarrow> bool chan list" where
  \<comment> \<open>\<open>exitChan := make(chan interface{}, 1)\<close> for every job\<close>
  "make_exitChans jobs = map (\<lambda>j. make_chan 1) jobs"

fun notify_all :: "bool chan list \<Rightarrow> bool chan list option" where
  \<comment> \<open>\<open>for _, c := range exitChans { c <- true }\<close>\<close>
  "notify_all [] = Some []"
| "notify_all (c # cs) =
     (case chan_send True c of
        None \<Rightarrow> None
      | Some c' \<Rightarrow> map_option (Cons c') (notify_all cs))"

section \<open>Predicates on the records of a run\<close>

definition in_flight :: "time \<Rightarrow> invocation \<Rightarrow> bool" where
  "in_flight t i =
     (inv_start i \<le> t \<and> (case inv_end i of None \<Rightarrow> True | Some e \<Rightarrow> t < e))"

definition returned_before :: "invocation \<Rightarrow> invocation \<Rightarrow> bool" where
  "returned_before a b = (case inv_end a of None \<Rightarrow> False | Some e \<Rightarrow> e \<le> inv_start b)"

fun is_took_too_long :: "entry \<Rightarrow> bool" where
  "is_took_too_long (lg, lv, took_too_long d) = True"
| "is_took_too_long (lg, lv, m) = False"

definition serial_ok :: "sched \<Rightarrow> bool" where
  \<comment> \<open>every call returned before the next one started, and by now while the loop runs\<close>
  "serial_ok s =
     (sorted_wrt returned_before (invocations s)
      \<and> (status s = Running \<longrightarrow>
           (\<forall>i\<in>set (invocations s).
              case inv_end i of None \<Rightarrow> False | Some e \<Rightarrow> e \<le> clock s)))"

definition monitor_ok :: "params \<Rightarrow> invocation \<Rightarrow> bool" where
  \<comment> \<open>the monitor of a call starts with it and is cancelled when it returns\<close>
  "monitor_ok P i =
     (case inv_monitor i of
        None \<Rightarrow> True
      | Some m \<Rightarrow>
          mon_done m = inv_end i \<and> mon_started m = inv_start i \<and> mon_logger m = jobLogger P
          \<and> (case inv_end i of None \<Rightarrow> True | Some e \<Rightarrow> inv_start i \<le> e))"

definition timer_taken :: "(nat \<Rightarrow> bool) \<Rightarrow> time \<Rightarrow> nat \<Rightarrow> time \<Rightarrow> bool" where
  \<comment> \<open>the k-th select of a monitor cancelled at \<open>T\<close> runs the timer's case, the timer
      delivering at \<open>x\<close>\<close>
  "timer_taken tf T k x = (x < T \<or> (x = T \<and> tf k))"

section \<open>Sample inputs\<close>

definition hello_process :: "nat \<Rightarrow> subprocess" where
  "hello_process d =
     \<lparr>stdout_pipe_error = None, stderr_pipe_error = None, start_error = None,
      stdout_reads = [Line ''hello'' False, ReadErr io_EOF],
      stderr_reads = [ReadErr io_EOF],
      stdout_close = None, stderr_close = None,
      exit_status = Some (Exited 0), elapsed = d\<rparr>"

definition sample_params :: "bool \<Rightarrow> params" where
  "sample_params ov =
     \<lparr>context_arg = \<lparr>Shell = ''/bin/sh'', Environ = [(''VAR'', ''bar'')]\<rparr>,
      job = \<lparr>Schedule = ''* * * * * * *'', Command = ''sleep 3'', Position = 0,
              Expression = (\<lambda>t. t + 1)\<rparr>,
      cronLogger = [(''job.command'', FStr ''sleep 3'')],
      overlapping = ov,
      cronCtx = \<lparr>Shell = ''/bin/sh'', Environ = []\<rparr>,
      jobLogger = []\<rparr>"

definition sample_world :: "nat \<Rightarrow> time option \<Rightarrow> bool \<Rightarrow> world" where
  "sample_world d stop tf =
     \<lparr>start_time = 0, os_Environ = [''VAR=foo''], subprocesses = (\<lambda>k. hello_process d),
      stop_sent = stop, timer_first = (\<lambda>k. tf)\<rparr>"

definition failing_process :: subprocess where
  \<comment> \<open>a subprocess that cannot be started: \<open>cmd.Start()\<close> fails at once\<close>
  "failing_process =
     (hello_process 0)\<lparr>start_error := Some (ErrorString ''fork/exec /bin/sh: permission denied'')\<rparr>"

definition late_world :: world where
  \<comment> \<open>jobs of 6 units on a schedule of 1 unit; the third call of \<open>runJob\<close> fails to start;
      a select with both cases ready takes the timer\<close>
  "late_world =
     \<lparr>start_time = 0, os_Environ = [''VAR=foo''],
      subprocesses = (\<lambda>k. if k = 2 then failing_process else hello_process 6),
      stop_sent = None, timer_first = (\<lambda>k. True)\<rparr>"

section \<open>The environment of the subprocess\<close>







section \<open>The drain and its read errors\<close>

lemma entry_level_simp [simp]: "entry_level (lg, l, m) = l"
  by (simp add: entry_level_def)

lemma drain_loop_until_error:
  "\<exists>es. drain_loop lg (map (\<lambda>lp. Line (fst lp) (snd lp)) ls @ ReadErr err # rest) = Some es
       \<and> filter (\<lambda>e. entry_level e = ErrorLevel) es =
         filter (\<lambda>e. entry_level e = ErrorLevel) (read_error_entries lg err)"
  by (induction ls) auto

text \<open>
  C8. A reader delivers any lines and then a read error. Whatever would follow, the drain
  returns. Its records at error level are: nothing for the read error when its text
  contains "file already closed" or when it is \<open>io.EOF\<close>, and the record "failed to read
  pipe" for any other read error; then the record of a failed \<open>Close\<close>, if it fails.
\<close>

theorem drain_read_error_classified:
  "\<exists>es. startReaderDrain lg (map (\<lambda>lp. Line (fst lp) (snd lp)) ls @ ReadErr err # rest) cl
           = Some es
       \<and> filter (\<lambda>e. entry_level e = ErrorLevel) es =
           (if Contains (err_text err) os_ErrClosed_text \<or> err = io_EOF then []
            else [(lg, ErrorLevel, failed_to_read_pipe err)])
           @ (case cl of None \<Rightarrow> [] | Some ce \<Rightarrow> [(lg, ErrorLevel, failed_to_close_pipe ce)])"
proof -
  obtain es where
    es: "drain_loop lg (map (\<lambda>lp. Line (fst lp) (snd lp)) ls @ ReadErr err # rest) = Some es"
    and f: "filter (\<lambda>e. entry_level e = ErrorLevel) es =
            filter (\<lambda>e. entry_level e = ErrorLevel) (read_error_entries lg err)"
    using drain_loop_until_error by blast
  show ?thesis
    by (cases cl) (simp_all add: startReaderDrain_def es f read_error_entries_def)
qed

section \<open>The executor waits for the drains, then for the process\<close>

text \<open>
  C7. Once the pipes are obtained and the subprocess is started, \<open>runJob\<close> waits for the
  drains before it waits for the process. While a drain has not completed it stays in
  \<open>wg.Wait()\<close> and has not called \<open>cmd.Wait()\<close>, whatever the process did. When both
  drains have completed it calls \<open>cmd.Wait()\<close> and stays there while the process has not
  terminated. When the process terminates it returns, having made its calls in the order
  of the source: nil exactly on exit status zero, and on any other exit status or a
  signal the error "error running command: " followed by the status.
\<close>

theorem runJob_waits_for_drains_then_process:
  assumes "stdout_pipe_error p = None"
    and "stderr_pipe_error p = None"
    and "start_error p = None"
  shows "(startReaderDrain (WithField lg ''channel'' (FStr ''stdout''))
              (stdout_reads p) (stdout_close p) = None
          \<or> startReaderDrain (WithField lg ''channel'' (FStr ''stderr''))
              (stderr_reads p) (stderr_close p) = None \<longrightarrow>
            runJob_outcome os_env p ctx command lg =
              Stuck [call_StdoutPipe, call_StderrPipe, call_Start, call_wg_Wait])
       \<and> (startReaderDrain (WithField lg ''channel'' (FStr ''stdout''))
              (stdout_reads p) (stdout_close p) \<noteq> None
          \<and> startReaderDrain (WithField lg ''channel'' (FStr ''stderr''))
              (stderr_reads p) (stderr_close p) \<noteq> None
          \<and> exit_status p = None \<longrightarrow>
            runJob_outcome os_env p ctx command lg =
              Stuck [call_StdoutPipe, call_StderrPipe, call_Start, call_wg_Wait, call_cmd_Wait])
       \<and> (\<forall>st. startReaderDrain (WithField lg ''channel'' (FStr ''stdout''))
              (stdout_reads p) (stdout_close p) \<noteq> None
          \<and> startReaderDrain (WithField lg ''channel'' (FStr ''stderr''))
              (stderr_reads p) (stderr_close p) \<noteq> None
          \<and> exit_status p = Some st \<longrightarrow>
            (\<exists>r. runJob_outcome os_env p ctx command lg = Returned r
                \<and> runJob os_env p ctx command lg = Some r
                \<and> run_calls r =
                    [call_StdoutPipe, call_StderrPipe, call_Start, call_wg_Wait, call_cmd_Wait]
                \<and> run_error r =
                    (if st = Exited 0 then None
                     else Some (ErrorString (''error running command: '' @ status_text st)))))
       \<and> ((\<exists>r. runJob os_env p ctx command lg = Some r) \<longleftrightarrow>
            startReaderDrain (WithField lg ''channel'' (FStr ''stdout''))
              (stdout_reads p) (stdout_close p) \<noteq> None
          \<and> startReaderDrain (WithField lg ''channel'' (FStr ''stderr''))
              (stderr_reads p) (stderr_close p) \<noteq> None
          \<and> exit_status p \<noteq> None)"
  using assms
  by (auto simp: runJob_def runJob_outcome_def Let_def cmd_Wait_def split: option.splits)

text \<open>
  Four subprocesses: one that writes a line and exits with status zero; one killed by a
  signal; one whose standard error never ends, although the process has exited; one
  whose pipes end while the process never terminates.
\<close>

theorem runJob_waits_for_drains_then_process_witness:
  "(\<exists>r. runJob [] (hello_process 3) \<lparr>Shell = ''/bin/sh'', Environ = []\<rparr> ''echo hello'' []
          = Some r \<and> run_error r = None
        \<and> run_calls r =
            [call_StdoutPipe, call_StderrPipe, call_Start, call_wg_Wait, call_cmd_Wait])
   \<and> (\<exists>r. runJob [] ((hello_process 3)\<lparr>exit_status := Some (Signaled ''killed'')\<rparr>)
             \<lparr>Shell = ''/bin/sh'', Environ = []\<rparr> ''echo hello'' [] = Some r
           \<and> run_error r = Some (ErrorString ''error running command: signal: killed''))
   \<and> runJob_outcome [] ((hello_process 3)\<lparr>stderr_reads := [Line ''x'' False]\<rparr>)
        \<lparr>Shell = ''/bin/sh'', Environ = []\<rparr> ''echo hello'' []
       = Stuck [call_StdoutPipe, call_StderrPipe, call_Start, call_wg_Wait]
   \<and> runJob_outcome [] ((hello_process 3)\<lparr>exit_status := None\<rparr>)
        \<lparr>Shell = ''/bin/sh'', Environ = []\<rparr> ''echo hello'' []
       = Stuck [call_StdoutPipe, call_StderrPipe, call_Start, call_wg_Wait, call_cmd_Wait]"
  using runJob_waits_for_drains_then_process
    [where p = "hello_process 3" and os_env = "[]"
       and ctx = "\<lparr>Shell = ''/bin/sh'', Environ = []\<rparr>" and command = "''echo hello''"
       and lg = "[]"]
    runJob_waits_for_drains_then_process
    [where p = "(hello_process 3)\<lparr>exit_status := Some (Signaled ''killed'')\<rparr>" and os_env = "[]"
       and ctx = "\<lparr>Shell = ''/bin/sh'', Environ = []\<rparr>" and command = "''echo hello''"
       and lg = "[]"]
    runJob_waits_for_drains_then_process
    [where p = "(hello_process 3)\<lparr>stderr_reads := [Line ''x'' False]\<rparr>" and os_env = "[]"
       and ctx = "\<lparr>Shell = ''/bin/sh'', Environ = []\<rparr>" and command = "''echo hello''"
       and lg = "[]"]
    runJob_waits_for_drains_then_process
    [where p = "(hello_process 3)\<lparr>exit_status := None\<rparr>" and os_env = "[]"
       and ctx = "\<lparr>Shell = ''/bin/sh'', Environ = []\<rparr>" and command = "''echo hello''"
       and lg = "[]"]
  by (simp add: hello_process_def startReaderDrain_def read_error_entries_def
        os_ErrClosed_text_def) blast

section \<open>Facts about time and select\<close>

lemmas sched_defs = step_def fire_def dispatch_def monitored_call_def run_def returns_at_def

lemmas sample_defs = sample_params_def sample_world_def hello_process_def

lemmas eval_defs = sched_defs sample_defs StartJob_def init_def select_timer_def time_After_def
  time_Sub_def maxDuration_def minDuration_def runJob_def runJob_outcome_def
  startReaderDrain_def
  read_error_entries_def os_ErrClosed_text_def cmd_Wait_def job_cmd_def Let_def

lemma time_After_ge: "now \<le> time_After now d"
  by (simp add: time_After_def)

lemma select_timer_ge: "now \<le> fires \<Longrightarrow> now \<le> snd (select_timer tf now other fires)"
  by (auto simp: select_timer_def Let_def split: option.splits)

lemma select_timer_Some:
  "now \<le> T \<Longrightarrow> select_timer tf now (Some T) fires =
     (if fires < T then (True, fires) else if T < fires then (False, T) else (tf, fires))"
  by (simp add: select_timer_def Let_def max_def)

lemma returns_at_later: "case returns_at now p r of None \<Rightarrow> True | Some t \<Rightarrow> now \<le> t"
  by (simp add: returns_at_def split: option.splits)

section \<open>The stop notification\<close>

lemma notify_all_fresh:
  "notify_all (map (\<lambda>j. make_chan 1) jobs) = Some (map (\<lambda>j. \<lparr>cap = 1, buf = [True]\<rparr>) jobs)"
  by (induction jobs) (simp_all add: chan_send_def make_chan_def)

lemma notify_all_full:
  "jobs \<noteq> [] \<Longrightarrow> notify_all (map (\<lambda>j. \<lparr>cap = 1, buf = [True]\<rparr>) jobs) = None"
  by (cases jobs) (simp_all add: chan_send_def)

text \<open>
  C6, as the code has it. Every exit channel is made with one slot and starts empty. The
  coordinator sends once on each, with an ordinary send: on the fresh channels no send
  blocks, and each channel then holds one notification. The send is not a non-blocking
  one: while that notification is not received, a further send on the channel blocks.
\<close>

theorem stop_notification_sent_once:
  "(\<forall>c\<in>set (make_exitChans jobs). cap c = 1 \<and> buf c = [])
   \<and> notify_all (make_exitChans jobs) = Some (map (\<lambda>j. \<lparr>cap = 1, buf = [True]\<rparr>) jobs)
   \<and> (\<forall>c\<in>set (map (\<lambda>j. \<lparr>cap = 1, buf = [True]\<rparr>) jobs). chan_send True c = None)"
proof -
  have a: "\<forall>c\<in>set (make_exitChans jobs). cap c = 1 \<and> buf c = []"
    by (simp add: make_exitChans_def make_chan_def)
  have b: "notify_all (make_exitChans jobs) = Some (map (\<lambda>j. \<lparr>cap = 1, buf = [True]\<rparr>) jobs)"
    unfolding make_exitChans_def by (rule notify_all_fresh)
  have c: "\<forall>c\<in>set (map (\<lambda>j. \<lparr>cap = 1, buf = [True]\<rparr>) jobs). chan_send True c = None"
    by (simp add: chan_send_def)
  from a b c show ?thesis by blast
qed

theorem stop_notification_sent_once_witness:
  "make_exitChans [job (sample_params False)] = [\<lparr>cap = 1, buf = []\<rparr>]
   \<and> notify_all (make_exitChans [job (sample_params False)]) = Some [\<lparr>cap = 1, buf = [True]\<rparr>]
   \<and> chan_send True \<lparr>cap = 1, buf = [True]\<rparr> = None"
  using stop_notification_sent_once [of "[job (sample_params False)]"]
  by (simp add: make_exitChans_def make_chan_def)

text \<open>
  C6 as stated fails: the second send on an exit channel whose notification has not been
  received does not return (it is not a no-op that leaves the channel as it is), and a
  second round of notifications blocks the coordinator.
\<close>

theorem second_stop_send_blocks:
  "chan_send True (make_chan 1) = Some \<lparr>cap = 1, buf = [True]\<rparr>
   \<and> chan_send True \<lparr>cap = 1, buf = [True]\<rparr> = None
   \<and> chan_send True \<lparr>cap = 1, buf = [True]\<rparr> \<noteq> Some \<lparr>cap = 1, buf = [True]\<rparr>
   \<and> notify_all [\<lparr>cap = 1, buf = [True]\<rparr>] = None"
  by (simp add: chan_send_def make_chan_def)

section \<open>One pass of the scheduler loop\<close>

lemma step_announces:
  "\<exists>rest. entries (step P W s) =
     entries s @ (cronLogger P, DebugLevel, will_run_next (Expression (job P) (nextRun s))) # rest"
  by (auto simp: sched_defs Let_def split: prod.splits option.splits)

text \<open>
  C5. When the delay is negative and overlap is disabled, a pass of the loop changes
  nothing but the log and the schedule reference: it logs the next run and the warning,
  sets \<open>nextRun\<close> to the current time, leaves the clock where it is (no wait), starts no
  call of \<open>runJob\<close> and stays running; the pass after it computes the next fire time
  from that current time.
\<close>

theorem negative_delay_serial_skips_and_resyncs:
  assumes "time_Sub (Expression (job P) (nextRun s)) (clock s) < 0" and "\<not> overlapping P"
  shows "step P W s =
           s\<lparr>nextRun := clock s,
             entries := entries s @
               [(cronLogger P, DebugLevel, will_run_next (Expression (job P) (nextRun s))),
                (cronLogger P, WarnLevel,
                 took_too_long (neg_duration (time_Sub (Expression (job P) (nextRun s)) (clock s))))]\<rparr>
       \<and> (\<exists>rest. entries (step P W (step P W s)) =
             entries (step P W s)
             @ (cronLogger P, DebugLevel, will_run_next (Expression (job P) (clock s))) # rest)"
proof -
  have eq: "step P W s =
           s\<lparr>nextRun := clock s,
             entries := entries s @
               [(cronLogger P, DebugLevel, will_run_next (Expression (job P) (nextRun s))),
                (cronLogger P, WarnLevel,
                 took_too_long (neg_duration (time_Sub (Expression (job P) (nextRun s)) (clock s))))]\<rparr>"
    using assms by (simp add: step_def Let_def)
  have "nextRun (step P W s) = clock s" by (simp add: eq)
  with step_announces [of P W "step P W s"] show ?thesis using eq by simp
qed

text \<open>
  The first pass on the sample job fires at 1 and its two calls last until 7: the second
  pass finds a delay of -5.
\<close>

theorem negative_delay_serial_skips_and_resyncs_witness:
  "nextRun (StartJob (sample_params False) (sample_world 3 None False) 1) = 1
   \<and> clock (StartJob (sample_params False) (sample_world 3 None False) 1) = 7
   \<and> \<not> overlapping (sample_params False)
   \<and> nextRun (step (sample_params False) (sample_world 3 None False)
        (StartJob (sample_params False) (sample_world 3 None False) 1)) = 7
   \<and> clock (step (sample_params False) (sample_world 3 None False)
        (StartJob (sample_params False) (sample_world 3 None False) 1)) = 7
   \<and> invocations (step (sample_params False) (sample_world 3 None False)
        (StartJob (sample_params False) (sample_world 3 None False) 1))
       = invocations (StartJob (sample_params False) (sample_world 3 None False) 1)
   \<and> drop 6 (entries (step (sample_params False) (sample_world 3 None False)
        (StartJob (sample_params False) (sample_world 3 None False) 1)))
       = [([(''job.command'', FStr ''sleep 3'')], DebugLevel, will_run_next 2),
          ([(''job.command'', FStr ''sleep 3'')], WarnLevel, took_too_long 5)]"
  using negative_delay_serial_skips_and_resyncs
    [of "sample_params False" "StartJob (sample_params False) (sample_world 3 None False) 1"
        "sample_world 3 None False"]
  by (simp add: eval_defs neg_duration_def)

lemma drain_loop_not_too_long:
  "drain_loop lg rs = Some es \<Longrightarrow> filter is_took_too_long es = []"
  by (induction lg rs arbitrary: es rule: drain_loop.induct)
     (auto simp: read_error_entries_def)

lemma startReaderDrain_not_too_long:
  "startReaderDrain lg rs cl = Some es \<Longrightarrow> filter is_took_too_long es = []"
  by (auto simp: startReaderDrain_def dest: drain_loop_not_too_long split: option.splits)

lemma runJob_not_too_long:
  "runJob os_env p ctx command lg = Some r \<Longrightarrow> filter is_took_too_long (run_entries r) = []"
  by (auto simp: runJob_def runJob_outcome_def Let_def dest: startReaderDrain_not_too_long
        split: option.splits)

lemma run_not_too_long: "filter is_took_too_long (snd (run P W k it)) = []"
  by (auto simp: run_def Let_def dest: runJob_not_too_long split: option.splits)

lemma monitored_call_too_long:
  "filter is_took_too_long (entries (monitored_call P W s)) = filter is_took_too_long (entries s)"
  by (auto simp: monitored_call_def Let_def dest: runJob_not_too_long split: option.splits)

lemma dispatch_too_long:
  "filter is_took_too_long (entries (dispatch P W s)) = filter is_took_too_long (entries s)"
  using run_not_too_long [of P W "calls s" "cronIteration s"]
  by (auto simp: dispatch_def Let_def split: prod.splits)

lemma fire_too_long:
  "filter is_took_too_long (entries (fire P W s)) = filter is_took_too_long (entries s)"
  by (simp add: fire_def Let_def monitored_call_too_long dispatch_too_long)

lemma monitored_call_fields:
  "nextRun (monitored_call P W s) = nextRun s"
  "\<exists>i. invocations (monitored_call P W s) = invocations s @ [i] \<and> inv_start i = clock s
       \<and> inv_ctx i = cronCtx P \<and> inv_monitor i \<noteq> None"
  by (simp_all add: monitored_call_def Let_def)

lemma dispatch_fields:
  "nextRun (dispatch P W s) = nextRun s"
  "\<exists>i. invocations (dispatch P W s) = invocations s @ [i] \<and> inv_start i = clock s
       \<and> inv_ctx i = context_arg P \<and> inv_monitor i = None"
  by (simp_all add: dispatch_def Let_def split: prod.splits)

lemma fire_nextRun: "nextRun (fire P W s) = nextRun s"
  by (simp add: fire_def Let_def monitored_call_fields dispatch_fields)

lemma fire_starts_at_once:
  "\<exists>i rest. invocations (fire P W s) = invocations s @ i # rest \<and> inv_start i = clock s"
proof -
  obtain i where i: "invocations (monitored_call P W s) = invocations s @ [i]" "inv_start i = clock s"
    using monitored_call_fields(2) by blast
  obtain j where j: "invocations (dispatch P W (monitored_call P W s)) = invocations (monitored_call P W s) @ [j]"
    using dispatch_fields(2) by blast
  show ?thesis using i j by (auto simp: fire_def Let_def)
qed

text \<open>
  C10, as the code has it. With overlap enabled and a negative delay, a pass of the loop
  logs no "took too long" warning and keeps the computed \<open>nextRun\<close>. Its select finds the
  timer ready at once. If no stop notification is ready by then, or if the select picks
  the timer although one is, the first call of \<open>runJob\<close> of the firing starts at the
  instant the pass began. If a stop notification is ready and the select picks it, the
  loop stops without starting a call.
\<close>

theorem overlap_negative_delay_fires_or_stops:
  assumes "overlapping P" and "time_Sub (Expression (job P) (nextRun s)) (clock s) < 0"
  shows "nextRun (step P W s) = Expression (job P) (nextRun s)
       \<and> filter is_took_too_long (entries (step P W s)) = filter is_took_too_long (entries s)
       \<and> (if (case stop_sent W of None \<Rightarrow> True
                | Some r \<Rightarrow> clock s < r \<or> timer_first W (selects s))
          then (\<exists>i rest. invocations (step P W s) = invocations s @ i # rest
                  \<and> inv_start i = clock s)
          else status (step P W s) = Stopped \<and> invocations (step P W s) = invocations s
             \<and> clock (step P W s) = clock s)"
proof -
  let ?nr = "Expression (job P) (nextRun s)"
  let ?d = "time_Sub ?nr (clock s)"
  let ?s1 = "s\<lparr>nextRun := ?nr,
               entries := entries s @ [(cronLogger P, DebugLevel, will_run_next ?nr)]\<rparr>"
  have fires: "time_After (clock s) ?d = clock s" using assms(2) by (simp add: time_After_def)
  show ?thesis
  proof (cases "case stop_sent W of None \<Rightarrow> True
                | Some r \<Rightarrow> clock s < r \<or> timer_first W (selects s)")
    case True
    then have sel: "select_timer (timer_first W (selects s)) (clock s) (stop_sent W) (clock s)
                    = (True, clock s)"
      by (auto simp: select_timer_def Let_def max_def split: option.splits)
    have st: "step P W s = fire P W (?s1\<lparr>selects := Suc (selects s), clock := clock s\<rparr>)"
      using assms sel fires by (simp add: step_def Let_def)
    show ?thesis
      using True fire_starts_at_once [of P W "?s1\<lparr>selects := Suc (selects s), clock := clock s\<rparr>"]
      by (simp add: st fire_nextRun fire_too_long)
  next
    case False
    then have sel: "select_timer (timer_first W (selects s)) (clock s) (stop_sent W) (clock s)
                    = (False, clock s)"
      by (auto simp: select_timer_def Let_def max_def split: option.splits)
    show ?thesis using False assms sel fires by (simp add: step_def Let_def)
  qed
qed

text \<open>
  With overlap enabled the first pass on a sample job of 6 units fires at 1 and returns
  to the top of the loop at 7, the detached call still in flight: the second pass finds
  a delay of -5.
\<close>

theorem overlap_negative_delay_fires_or_stops_witness:
  "overlapping (sample_params True)
   \<and> nextRun (StartJob (sample_params True) (sample_world 6 None False) 1) = 1
   \<and> clock (StartJob (sample_params True) (sample_world 6 None False) 1) = 7
   \<and> nextRun (step (sample_params True) (sample_world 6 None False)
        (StartJob (sample_params True) (sample_world 6 None False) 1)) = 2
   \<and> map inv_start (invocations (step (sample_params True) (sample_world 6 None False)
        (StartJob (sample_params True) (sample_world 6 None False) 1))) = [1, 7, 7, 13]"
  using overlap_negative_delay_fires_or_stops
    [of "sample_params True" "StartJob (sample_params True) (sample_world 6 None False) 1"
        "sample_world 6 None False"]
  by (simp add: eval_defs)

text \<open>
  C10 as stated fails when a stop notification is already in the exit channel: with
  overlap enabled and a negative delay the select may take it, and then no invocation
  fires. Here the stop is sent at 5, while the first firing of a sample job of 6 units
  is under way; the second pass, at 7, has a delay of -5 and stops.
\<close>

theorem overlap_negative_delay_stop_pending:
  "overlapping (sample_params True)
   \<and> status (StartJob (sample_params True) (sample_world 6 (Some 5) False) 1) = Running
   \<and> time_Sub
        (Expression (job (sample_params True))
           (nextRun (StartJob (sample_params True) (sample_world 6 (Some 5) False) 1)))
        (clock (StartJob (sample_params True) (sample_world 6 (Some 5) False) 1)) = - 5
   \<and> status (step (sample_params True) (sample_world 6 (Some 5) False)
        (StartJob (sample_params True) (sample_world 6 (Some 5) False) 1)) = Stopped
   \<and> invocations (step (sample_params True) (sample_world 6 (Some 5) False)
        (StartJob (sample_params True) (sample_world 6 (Some 5) False) 1))
       = invocations (StartJob (sample_params True) (sample_world 6 (Some 5) False) 1)"
  by (simp add: eval_defs)

lemma fire_calls_runJob_twice:
  assumes "status (monitored_call P W s) \<noteq> Blocked"
  shows "\<exists>i j. invocations (fire P W s) = invocations s @ [i, j]
           \<and> inv_ctx i = cronCtx P \<and> inv_monitor i \<noteq> None
           \<and> inv_ctx j = context_arg P \<and> inv_monitor j = None"
proof -
  obtain i where i: "invocations (monitored_call P W s) = invocations s @ [i]"
    "inv_ctx i = cronCtx P" "inv_monitor i \<noteq> None"
    using monitored_call_fields(2) by blast
  obtain j where j: "invocations (dispatch P W (monitored_call P W s)) =
      invocations (monitored_call P W s) @ [j]" "inv_ctx j = context_arg P" "inv_monitor j = None"
    using dispatch_fields(2) by blast
  show ?thesis using assms i j by (auto simp: fire_def Let_def)
qed

text \<open>
  C2 fails on the code. Every firing whose first call returns makes a second call
  (\<open>fire_calls_runJob_twice\<close>). The first pass of the loop on the sample job fires once, and that
  one firing calls \<open>runJob\<close> twice: at 1 inside the closure that starts the monitor, with
  \<open>cronCtx\<close>, and after it has returned, at 4, through \<open>run\<close>, with the argument
  \<open>context\<close> and no monitor.
\<close>

theorem one_firing_calls_runJob_twice:
  "map (\<lambda>i. (inv_start i, inv_ctx i, inv_monitor i \<noteq> None))
     (invocations (StartJob (sample_params False) (sample_world 3 None False) 1))
   = [(1, \<lparr>Shell = ''/bin/sh'', Environ = []\<rparr>, True),
      (4, \<lparr>Shell = ''/bin/sh'', Environ = [(''VAR'', ''bar'')]\<rparr>, False)]"
  by (simp add: eval_defs)

section \<open>Calls under the serial policy\<close>

lemma serial_ok_call:
  assumes ok: "serial_ok s" and run: "status s = Running"
    and i: "inv_start i = clock s" "inv_end i = d"
    and d: "case d of None \<Rightarrow> True | Some t \<Rightarrow> clock s \<le> t"
    and s': "invocations s' = invocations s @ [i]"
       "clock s' = (case d of None \<Rightarrow> clock s | Some t \<Rightarrow> t)"
       "status s' = (case d of None \<Rightarrow> Blocked | Some t \<Rightarrow> Running)"
  shows "serial_ok s'"
proof -
  have fin: "\<forall>j\<in>set (invocations s). case inv_end j of None \<Rightarrow> False | Some e \<Rightarrow> e \<le> clock s"
    using ok run by (simp add: serial_ok_def)
  have before: "\<forall>j\<in>set (invocations s). returned_before j i"
    using fin i(1) by (auto simp: returned_before_def split: option.splits)
  have sorted: "sorted_wrt returned_before (invocations s')"
    using ok before by (simp add: s'(1) sorted_wrt_append serial_ok_def)
  show ?thesis
  proof (cases d)
    case None
    then show ?thesis using sorted by (simp add: serial_ok_def s')
  next
    case (Some t)
    then have "clock s \<le> t" using d by simp
    then have "\<forall>j\<in>set (invocations s). case inv_end j of None \<Rightarrow> False | Some e \<Rightarrow> e \<le> t"
      using fin by (auto split: option.splits)
    moreover have "clock s' = t" "status s' = Running" using Some s' by simp_all
    ultimately show ?thesis using sorted Some i(2) by (auto simp: serial_ok_def s'(1))
  qed
qed

lemma serial_ok_monitored_call:
  "serial_ok s \<Longrightarrow> status s = Running \<Longrightarrow> serial_ok (monitored_call P W s)"
  by (rule serial_ok_call [where d = "returns_at (clock s) (subprocesses W (calls s))
        (runJob (os_Environ W) (subprocesses W (calls s)) (cronCtx P) (Command (job P)) (jobLogger P))"])
     (simp_all add: monitored_call_def Let_def returns_at_later)

lemma serial_ok_dispatch:
  "\<not> overlapping P \<Longrightarrow> serial_ok s \<Longrightarrow> status s = Running \<Longrightarrow> serial_ok (dispatch P W s)"
  by (rule serial_ok_call [where d = "returns_at (clock s) (subprocesses W (calls s))
        (fst (run P W (calls s) (cronIteration s)))"])
     (simp_all add: dispatch_def Let_def returns_at_later split_beta)

lemma monitored_call_status: "status (monitored_call P W s) \<noteq> Blocked \<Longrightarrow> status (monitored_call P W s) = Running"
  by (simp add: monitored_call_def Let_def split: option.splits)

lemma serial_ok_update:
  assumes "serial_ok s" "invocations s' = invocations s" "clock s \<le> clock s'"
    and "status s' = Running \<longrightarrow> status s = Running"
  shows "serial_ok s'"
proof -
  have "case inv_end i of None \<Rightarrow> False | Some e \<Rightarrow> e \<le> clock s'"
    if "case inv_end i of None \<Rightarrow> False | Some e \<Rightarrow> e \<le> clock s" for i
    using that assms(3) by (cases "inv_end i") simp_all
  then show ?thesis using assms by (auto simp: serial_ok_def)
qed

lemma serial_ok_fire:
  assumes "\<not> overlapping P" "serial_ok s" "status s = Running"
  shows "serial_ok (fire P W s)"
proof -
  let ?s1 = "monitored_call P W s"
  have s1: "serial_ok ?s1" using assms by (simp add: serial_ok_monitored_call)
  show ?thesis
  proof (cases "status ?s1 = Blocked")
    case True
    then show ?thesis using s1 by (simp add: fire_def Let_def)
  next
    case False
    then have "status ?s1 = Running" by (rule monitored_call_status)
    then have s2: "serial_ok (dispatch P W ?s1)" using assms(1) s1 by (simp add: serial_ok_dispatch)
    have "serial_ok ((dispatch P W ?s1)\<lparr>cronIteration := cronIteration (dispatch P W ?s1) + 1\<rparr>)"
      by (rule serial_ok_update [OF s2]) simp_all
    then show ?thesis using False s2 by (simp add: fire_def Let_def)
  qed
qed

lemma serial_ok_step:
  assumes "\<not> overlapping P" "serial_ok s" "status s = Running"
  shows "serial_ok (step P W s)"
proof -
  let ?nr = "Expression (job P) (nextRun s)"
  let ?d = "time_Sub ?nr (clock s)"
  let ?s1 = "s\<lparr>nextRun := ?nr,
               entries := entries s @ [(cronLogger P, DebugLevel, will_run_next ?nr)]\<rparr>"
  show ?thesis
  proof (cases "?d < 0")
    case True
    have "serial_ok (?s1\<lparr>entries := entries ?s1 @
                     [(cronLogger P, WarnLevel, took_too_long (neg_duration ?d))],
                 nextRun := clock s\<rparr>)"
      by (rule serial_ok_update [OF assms(2)]) simp_all
    then show ?thesis using True assms(1) by (simp add: step_def Let_def)
  next
    case False
    obtain timer now' where sel: "select_timer (timer_first W (selects s)) (clock s)
                                     (stop_sent W) (time_After (clock s) ?d) = (timer, now')"
      by (cases "select_timer (timer_first W (selects s)) (clock s)
                                     (stop_sent W) (time_After (clock s) ?d)")
    have ge: "clock s \<le> now'"
      using select_timer_ge [OF time_After_ge [of "clock s" ?d],
          where tf = "timer_first W (selects s)" and other = "stop_sent W"] sel
      by simp
    let ?s2 = "?s1\<lparr>selects := Suc (selects s), clock := now'\<rparr>"
    have s2: "serial_ok ?s2" by (rule serial_ok_update [OF assms(2)]) (simp_all add: ge)
    show ?thesis
    proof (cases timer)
      case True
      have "serial_ok (fire P W ?s2)" using assms(1,3) s2 by (intro serial_ok_fire) simp_all
      then show ?thesis using False True sel by (simp add: step_def Let_def)
    next
      case f: False
      have "serial_ok (?s2\<lparr>entries := entries ?s2 @ [(cronLogger P, DebugLevel, shutting_down)],
                          status := Stopped\<rparr>)"
        using s2 by (simp add: serial_ok_def)
      then show ?thesis using False f sel by (simp add: step_def Let_def)
    qed
  qed
qed

lemma serial_ok_loop:
  "\<not> overlapping P \<Longrightarrow> serial_ok s \<Longrightarrow> serial_ok (loop n P W s)"
  by (induction n arbitrary: s) (simp_all add: serial_ok_step)

lemma serial_ok_StartJob: "\<not> overlapping P \<Longrightarrow> serial_ok (StartJob P W n)"
  unfolding StartJob_def by (rule serial_ok_loop) (simp_all add: serial_ok_def init_def)

lemma at_most_one_in_flight:
  "sorted_wrt returned_before xs \<Longrightarrow> length (filter (in_flight t) xs) \<le> 1"
proof (induction xs)
  case Nil
  then show ?case by simp
next
  case (Cons x xs)
  show ?case
  proof (cases "in_flight t x")
    case True
    have "\<forall>y\<in>set xs. \<not> in_flight t y"
    proof
      fix y assume y: "y \<in> set xs"
      then have "returned_before x y" using Cons.prems by simp
      then show "\<not> in_flight t y" using True
        by (auto simp: returned_before_def in_flight_def split: option.splits)
    qed
    then have "filter (in_flight t) xs = []" by (simp add: filter_empty_conv)
    then show ?thesis using True by simp
  next
    case False
    then show ?thesis using Cons by simp
  qed
qed

text \<open>
  C1. With overlap disabled, after any number of passes of the loop: at every instant at
  most one call of \<open>runJob\<close> is in flight, and every call has returned before any later
  call starts.
\<close>

theorem serial_invocations_never_overlap:
  assumes "\<not> overlapping P"
  shows "length (filter (in_flight t) (invocations (StartJob P W n))) \<le> 1
       \<and> sorted_wrt returned_before (invocations (StartJob P W n))"
  using serial_ok_StartJob [OF assms, of W n] at_most_one_in_flight
  by (simp add: serial_ok_def)

theorem serial_invocations_never_overlap_witness:
  "\<not> overlapping (sample_params False)
   \<and> map (\<lambda>i. (inv_start i, inv_end i))
        (invocations (StartJob (sample_params False) (sample_world 3 None False) 3))
       = [(1, Some 4), (4, Some 7), (8, Some 11), (11, Some 14)]
   \<and> length (filter (in_flight 5) (invocations (StartJob (sample_params False) (sample_world 3 None False) 3))) \<le> 1
   \<and> sorted_wrt returned_before (invocations (StartJob (sample_params False) (sample_world 3 None False) 3))"
  using serial_invocations_never_overlap [of "sample_params False" 5 "sample_world 3 None False" 3]
  by (simp add: eval_defs numeral_3_eq_3)

text \<open>
  The bound is a fact of the serial policy, not of the model: with overlap enabled two
  calls of the sample job are in flight at 5.
\<close>

lemma overlapping_calls_in_flight:
  "length (filter (in_flight 5) (invocations (StartJob (sample_params True) (sample_world 3 None False) 3))) = 2"
  by (simp add: eval_defs numeral_3_eq_3 in_flight_def)

section \<open>The overrun monitor\<close>

lemma monitor_loop_bounded:
  "now \<le> T \<Longrightarrow> monitor_loop fuel tf (Some T) nxt t0 lg t now k = Some ws \<Longrightarrow>
   \<forall>w\<in>set ws. fst w \<le> T"
proof (induction fuel arbitrary: t now k ws)
  case 0
  then show ?case by simp
next
  case (Suc fuel)
  let ?f = "time_After now (time_Until now (nxt t))"
  show ?case
  proof (cases "?f < T \<or> (?f = T \<and> tf k)")
    case True
    then have sel: "select_timer (tf k) now (Some T) ?f = (True, ?f)"
      using Suc.prems(1) by (auto simp: select_timer_Some)
    from Suc.prems(2) sel obtain ws' where
      rec: "monitor_loop fuel tf (Some T) nxt t0 lg (nxt t) ?f (Suc k) = Some ws'"
      and ws: "ws = (?f, lg, WarnLevel, still_running t0 (time_Sub (nxt t) t0)) # ws'"
      by (auto simp: Let_def)
    have "?f \<le> T" using True by auto
    from Suc.IH [OF this rec] ws \<open>?f \<le> T\<close> show ?thesis by simp
  next
    case False
    then have "fst (select_timer (tf k) now (Some T) ?f) = False"
      using Suc.prems(1) by (auto simp: select_timer_Some)
    with Suc.prems(2) have "ws = []"
      by (auto simp: Let_def split: prod.splits)
    then show ?thesis by simp
  qed
qed

lemma monitor_loop_terminates:
  assumes inc: "\<forall>t. t < nxt t"
  shows "now \<le> T \<Longrightarrow> nat (T + 1 - t) + nat (T + 1 - now) < fuel \<Longrightarrow>
         \<exists>ws. monitor_loop fuel tf (Some T) nxt t0 lg t now k = Some ws"
proof (induction fuel arbitrary: t now k)
  case 0
  then show ?case by simp
next
  case (Suc fuel)
  let ?f = "time_After now (time_Until now (nxt t))"
  show ?case
  proof (cases "?f < T \<or> (?f = T \<and> tf k)")
    case True
    then have sel: "select_timer (tf k) now (Some T) ?f = (True, ?f)"
      using Suc.prems(1) by (auto simp: select_timer_Some)
    have fT: "?f \<le> T" using True by auto
    have tlt: "t < nxt t" using inc by simp
    have nowf: "now \<le> ?f" by (rule time_After_ge)
    have "nat (T + 1 - nxt t) + nat (T + 1 - ?f) < nat (T + 1 - t) + nat (T + 1 - now)"
    proof (cases "t \<le> T")
      case True
      then show ?thesis using tlt nowf fT by linarith
    next
      case False
      then have "now < nxt t" using Suc.prems(1) tlt by linarith
      then have "0 < time_Until now (nxt t)"
        by (simp add: time_Until_def time_Sub_def maxDuration_def minDuration_def)
      then have "now < ?f" by (simp add: time_After_def)
      then show ?thesis using tlt fT False by linarith
    qed
    then have "nat (T + 1 - nxt t) + nat (T + 1 - ?f) < fuel" using Suc.prems(2) by linarith
    from Suc.IH [OF fT this] obtain ws' where
      "monitor_loop fuel tf (Some T) nxt t0 lg (nxt t) ?f (Suc k) = Some ws'" by blast
    then show ?thesis using sel by (simp add: Let_def)
  next
    case False
    then have "fst (select_timer (tf k) now (Some T) ?f) = False"
      using Suc.prems(1) by (auto simp: select_timer_Some)
    then show ?thesis by (auto simp: Let_def split: prod.splits)
  qed
qed

lemma monitor_loop_more_fuel:
  "monitor_loop fuel tf done nxt t0 lg t now k = Some ws \<Longrightarrow> fuel \<le> fuel' \<Longrightarrow>
   monitor_loop fuel' tf done nxt t0 lg t now k = Some ws"
proof (induction fuel arbitrary: fuel' t now k ws)
  case 0
  then show ?case by simp
next
  case (Suc fuel)
  then obtain n where f': "fuel' = Suc n" and le: "fuel \<le> n" by (cases fuel') auto
  show ?case using Suc.prems(1) Suc.IH [OF _ le] unfolding f'
    by (auto simp: Let_def split: prod.splits if_splits)
qed

lemma funpow_increasing:
  assumes "\<forall>t::int. t < nxt t"
  shows "t < (nxt ^^ Suc j) t"
proof (induction j)
  case 0
  then show ?case using assms by simp
next
  case (Suc j)
  have "(nxt ^^ Suc j) t < nxt ((nxt ^^ Suc j) t)" using assms by blast
  with Suc show ?case by simp
qed

lemma funpow_strict_mono:
  assumes "\<forall>t::int. t < nxt t" and "i < j"
  shows "(nxt ^^ i) t < (nxt ^^ j) t"
proof -
  obtain d where j: "j = i + Suc d" using assms(2) less_iff_Suc_add by auto
  have "(nxt ^^ j) t = (nxt ^^ Suc d) ((nxt ^^ i) t)"
    unfolding j by (simp only: add.commute [of i] funpow_add o_apply)
  then show ?thesis using funpow_increasing [OF assms(1), of "(nxt ^^ i) t" d] by simp
qed

lemma wake_unsaturated:
  assumes "now \<le> T" "T - now < maxDuration"
  shows "(time_After now (time_Until now t') < T \<longleftrightarrow> max now t' < T)"
    and "(time_After now (time_Until now t') = T \<longleftrightarrow> max now t' = T)"
    and "time_After now (time_Until now t') \<le> T \<Longrightarrow> time_After now (time_Until now t') = max now t'"
  using assms
  by (auto simp: time_After_def time_Until_def time_Sub_def maxDuration_def minDuration_def max_def
           split: if_splits)

lemma monitor_loop_warnings:
  assumes inc: "\<forall>t. t < nxt t"
  shows "monitor_loop fuel tf (Some T) nxt t0 lg t now k = Some ws \<Longrightarrow> now \<le> T \<Longrightarrow>
         T - now < maxDuration \<Longrightarrow>
         (\<forall>j<length ws. ws ! j = (max now ((nxt ^^ Suc j) t), lg, WarnLevel,
                                   still_running t0 (time_Sub ((nxt ^^ Suc j) t) t0)))
         \<and> (\<forall>j. j < length ws \<longleftrightarrow> (\<forall>i\<le>j. timer_taken tf T (k + i) (max now ((nxt ^^ Suc i) t))))"
proof (induction fuel arbitrary: t now k ws)
  case 0
  then show ?case by simp
next
  case (Suc fuel)
  let ?f = "time_After now (time_Until now (nxt t))"
  note unsat = wake_unsaturated [OF Suc.prems(2,3), of "nxt t"]
  show ?case
  proof (cases "timer_taken tf T k (max now (nxt t))")
    case True
    then have fsel: "?f < T \<or> (?f = T \<and> tf k)" using unsat(1,2) by (auto simp: timer_taken_def)
    then have f: "?f = max now (nxt t)" using unsat(3) by auto
    have sel: "select_timer (tf k) now (Some T) ?f = (True, ?f)"
      using fsel Suc.prems(2) by (auto simp: select_timer_Some)
    from Suc.prems(1) sel obtain ws' where
      rec: "monitor_loop fuel tf (Some T) nxt t0 lg (nxt t) ?f (Suc k) = Some ws'"
      and ws: "ws = (?f, lg, WarnLevel, still_running t0 (time_Sub (nxt t) t0)) # ws'"
      by (auto simp: Let_def)
    have fT: "?f \<le> T" using fsel by auto
    have "T - ?f < maxDuration" using Suc.prems(3) time_After_ge [of now "time_Until now (nxt t)"] by linarith
    from Suc.IH [OF rec fT this]
    have ih1: "\<forall>j<length ws'. ws' ! j = (max ?f ((nxt ^^ Suc j) (nxt t)), lg, WarnLevel,
                                   still_running t0 (time_Sub ((nxt ^^ Suc j) (nxt t)) t0))"
      and ih2: "\<forall>j. j < length ws' \<longleftrightarrow> (\<forall>i\<le>j. timer_taken tf T (Suc k + i) (max ?f ((nxt ^^ Suc i) (nxt t))))"
      by blast+
    have shift: "(nxt ^^ Suc j) (nxt t) = (nxt ^^ Suc (Suc j)) t" for j
      by (simp add: funpow_swap1)
    have mx: "max ?f ((nxt ^^ Suc (Suc j)) t) = max now ((nxt ^^ Suc (Suc j)) t)" for j
    proof -
      have "nxt t < (nxt ^^ Suc (Suc j)) t"
        using funpow_strict_mono [OF inc, of 1 "Suc (Suc j)" t] by simp
      then show ?thesis unfolding f by linarith
    qed
    have p1: "\<forall>j<length ws. ws ! j = (max now ((nxt ^^ Suc j) t), lg, WarnLevel,
                                   still_running t0 (time_Sub ((nxt ^^ Suc j) t) t0))"
    proof (intro allI impI)
      fix j assume "j < length ws"
      show "ws ! j = (max now ((nxt ^^ Suc j) t), lg, WarnLevel,
                                   still_running t0 (time_Sub ((nxt ^^ Suc j) t) t0))"
      proof (cases j)
        case 0
        then show ?thesis using ws f by simp
      next
        case (Suc j')
        then have "j' < length ws'" using \<open>j < length ws\<close> ws by simp
        then show ?thesis using ih1 Suc ws shift [of j'] mx [of j'] by simp
      qed
    qed
    have p2: "j < length ws \<longleftrightarrow> (\<forall>i\<le>j. timer_taken tf T (k + i) (max now ((nxt ^^ Suc i) t)))" for j
    proof (cases j)
      case 0
      then show ?thesis using ws True by simp
    next
      case (Suc j')
      have "j < length ws \<longleftrightarrow> j' < length ws'" using Suc ws by simp
      also have "\<dots> \<longleftrightarrow> (\<forall>i\<le>j'. timer_taken tf T (Suc k + i) (max now ((nxt ^^ Suc (Suc i)) t)))"
        using ih2 by (simp add: shift mx del: funpow.simps)
      also have "\<dots> \<longleftrightarrow> (\<forall>i\<le>j. timer_taken tf T (k + i) (max now ((nxt ^^ Suc i) t)))"
      proof
        assume a: "\<forall>i\<le>j'. timer_taken tf T (Suc k + i) (max now ((nxt ^^ Suc (Suc i)) t))"
        show "\<forall>i\<le>j. timer_taken tf T (k + i) (max now ((nxt ^^ Suc i) t))"
        proof (intro allI impI)
          fix i assume "i \<le> j"
          show "timer_taken tf T (k + i) (max now ((nxt ^^ Suc i) t))"
          proof (cases i)
            case 0
            then show ?thesis using True by simp
          next
            case (Suc i')
            then have "i' \<le> j'" using \<open>i \<le> j\<close> \<open>j = Suc j'\<close> by simp
            then show ?thesis using a Suc by simp
          qed
        qed
      next
        assume a: "\<forall>i\<le>j. timer_taken tf T (k + i) (max now ((nxt ^^ Suc i) t))"
        show "\<forall>i\<le>j'. timer_taken tf T (Suc k + i) (max now ((nxt ^^ Suc (Suc i)) t))"
        proof (intro allI impI)
          fix i assume "i \<le> j'"
          then have "Suc i \<le> j" using Suc by simp
          then have "timer_taken tf T (k + Suc i) (max now ((nxt ^^ Suc (Suc i)) t))" using a by blast
          then show "timer_taken tf T (Suc k + i) (max now ((nxt ^^ Suc (Suc i)) t))" by simp
        qed
      qed
      finally show ?thesis .
    qed
    from p1 p2 show ?thesis by blast
  next
    case False
    then have "\<not> (?f < T \<or> (?f = T \<and> tf k))" using unsat(1,2) by (auto simp: timer_taken_def)
    then have "fst (select_timer (tf k) now (Some T) ?f) = False"
      using Suc.prems(2) by (auto simp: select_timer_Some)
    with Suc.prems(1) have "ws = []"
      by (auto simp: Let_def split: prod.splits)
    moreover have "\<not> (\<forall>i\<le>j. timer_taken tf T (k + i) (max now ((nxt ^^ Suc i) t)))" for j
      using False by (auto intro: exI [of _ 0])
    ultimately show ?thesis by simp
  qed
qed

lemma monitored_call_monitor_ok:
  "\<exists>i. invocations (monitored_call P W s) = invocations s @ [i] \<and> monitor_ok P i"
  using returns_at_later [of "clock s" "subprocesses W (calls s)"
      "runJob (os_Environ W) (subprocesses W (calls s)) (cronCtx P) (Command (job P)) (jobLogger P)"]
  by (auto simp: monitored_call_def Let_def monitor_ok_def split: option.splits)

lemma dispatch_monitor_ok:
  "\<exists>i. invocations (dispatch P W s) = invocations s @ [i] \<and> monitor_ok P i"
  by (simp add: dispatch_def Let_def monitor_ok_def split_beta)

lemma fire_monitor_ok:
  assumes "list_all (monitor_ok P) (invocations s)"
  shows "list_all (monitor_ok P) (invocations (fire P W s))"
proof -
  obtain i where i: "invocations (monitored_call P W s) = invocations s @ [i]" "monitor_ok P i"
    using monitored_call_monitor_ok by blast
  obtain j where j: "invocations (dispatch P W (monitored_call P W s)) =
      invocations (monitored_call P W s) @ [j]" "monitor_ok P j"
    using dispatch_monitor_ok by blast
  show ?thesis using assms i j by (simp add: fire_def Let_def)
qed

lemma step_monitor_ok:
  assumes "list_all (monitor_ok P) (invocations s)"
  shows "list_all (monitor_ok P) (invocations (step P W s))"
  using assms by (simp add: step_def Let_def split_beta fire_monitor_ok)

lemma loop_monitor_ok:
  "list_all (monitor_ok P) (invocations s) \<Longrightarrow>
   list_all (monitor_ok P) (invocations (loop n P W s))"
  by (induction n arbitrary: s) (simp_all add: step_monitor_ok)

lemma StartJob_monitor_ok: "i \<in> set (invocations (StartJob P W n)) \<Longrightarrow> monitor_ok P i"
  using loop_monitor_ok [of P "init W" n W] by (simp add: StartJob_def init_def list_all_iff)

lemma filter_initial_segment:
  "(\<forall>j<length ws. P (ws ! j) \<longleftrightarrow> j < m) \<Longrightarrow> m \<le> length ws \<Longrightarrow> length (filter P ws) = m"
proof (induction ws arbitrary: m)
  case Nil
  then show ?case by simp
next
  case (Cons w ws)
  show ?case
  proof (cases m)
    case 0
    then have "\<forall>x\<in>set (w # ws). \<not> P x"
      using Cons.prems(1) by (metis in_set_conv_nth less_nat_zero_code)
    then have "filter P (w # ws) = []" by (simp add: filter_empty_conv)
    then show ?thesis using 0 by simp
  next
    case (Suc m')
    have "P w" using Cons.prems(1) [rule_format, of 0] Suc by simp
    have "\<forall>j<length ws. P (ws ! j) \<longleftrightarrow> j < m'"
      using Cons.prems(1) Suc by (metis Suc_less_eq length_Cons nth_Cons_Suc)
    moreover have "m' \<le> length ws" using Cons.prems(2) Suc by simp
    ultimately have "length (filter P ws) = m'" by (rule Cons.IH)
    then show ?thesis using \<open>P w\<close> Suc by simp
  qed
qed

text \<open>
  C3, as the code has it. The schedule returns a time after its argument. Take a call of
  \<open>runJob\<close> that has a monitor and returns at \<open>T\<close>, whatever it returns, less than the
  largest duration after it started. The monitor started with the call and its context
  is cancelled at \<open>T\<close>. The monitor then returns, and its warnings are exactly these: the
  j-th warning is about the j-th schedule point after \<open>t0\<close>, and it is emitted exactly
  when every select up to the j-th took the timer, that is when its schedule point was
  reached before \<open>T\<close>, or at \<open>T\<close> with the select taking the timer although the
  cancellation was ready too. So no warning is later than \<open>T\<close>, none is about a schedule
  point after \<open>T\<close>, and when the select never takes the timer while the cancellation is
  ready, every warning is before \<open>T\<close>. The monitor does not always stop at once.
\<close>

theorem monitor_warnings_up_to_cancellation:
  assumes inc: "\<forall>t. t < Expression (job P) t"
    and i: "i \<in> set (invocations (StartJob P W n))"
    and m: "inv_monitor i = Some m"
    and T: "inv_end i = Some T"
    and dur: "T - inv_start i < maxDuration"
  shows "mon_done m = Some T \<and> mon_started m = inv_start i
       \<and> (\<exists>ws.
            (\<forall>fuel. nat (T + 1 - mon_t0 m) + nat (T + 1 - mon_started m) < fuel \<longrightarrow>
               monitorJob fuel tf (mon_done m) (Expression (job P)) (mon_t0 m)
                 (mon_logger m) (mon_started m) = Some ws)
          \<and> (\<forall>j<length ws.
                ws ! j = (max (mon_started m) ((Expression (job P) ^^ Suc j) (mon_t0 m)),
                          mon_logger m, WarnLevel,
                          still_running (mon_t0 m)
                            (time_Sub ((Expression (job P) ^^ Suc j) (mon_t0 m)) (mon_t0 m))))
          \<and> (\<forall>j. j < length ws \<longleftrightarrow>
                (\<forall>k\<le>j. timer_taken tf T k
                          (max (mon_started m) ((Expression (job P) ^^ Suc k) (mon_t0 m)))))
          \<and> (\<forall>w\<in>set ws. fst w \<le> T)
          \<and> ((\<forall>k. \<not> tf k) \<longrightarrow> (\<forall>w\<in>set ws. fst w < T)))"
proof -
  let ?nxt = "Expression (job P)"
  let ?b = "nat (T + 1 - mon_t0 m) + nat (T + 1 - mon_started m)"
  have ok: "monitor_ok P i" using i by (rule StartJob_monitor_ok)
  then have d: "mon_done m = Some T" and st: "mon_started m = inv_start i"
    using m T by (simp_all add: monitor_ok_def)
  have le: "mon_started m \<le> T" using ok m T st by (simp add: monitor_ok_def)
  have dur': "T - mon_started m < maxDuration" using dur st by simp
  obtain ws where ws: "monitor_loop (Suc ?b) tf (Some T) ?nxt (mon_t0 m)
      (mon_logger m) (mon_t0 m) (mon_started m) 0 = Some ws"
    using monitor_loop_terminates [OF inc le, of "mon_t0 m" "Suc ?b" tf "mon_t0 m" "mon_logger m" 0]
    by auto
  have all_fuel: "\<forall>fuel. ?b < fuel \<longrightarrow>
      monitorJob fuel tf (mon_done m) ?nxt (mon_t0 m) (mon_logger m) (mon_started m) = Some ws"
    using monitor_loop_more_fuel [OF ws] by (simp add: monitorJob_def d)
  from monitor_loop_warnings [OF inc ws le dur']
  have nth: "\<forall>j<length ws.
                ws ! j = (max (mon_started m) ((?nxt ^^ Suc j) (mon_t0 m)),
                          mon_logger m, WarnLevel,
                          still_running (mon_t0 m) (time_Sub ((?nxt ^^ Suc j) (mon_t0 m)) (mon_t0 m)))"
    and len0: "\<forall>j. j < length ws \<longleftrightarrow>
                (\<forall>k\<le>j. timer_taken tf T (0 + k) (max (mon_started m) ((?nxt ^^ Suc k) (mon_t0 m))))"
    by blast+
  have len: "\<forall>j. j < length ws \<longleftrightarrow>
                (\<forall>k\<le>j. timer_taken tf T k (max (mon_started m) ((?nxt ^^ Suc k) (mon_t0 m))))"
    using len0 by simp
  have bounded: "\<forall>w\<in>set ws. fst w \<le> T" using monitor_loop_bounded [OF le ws] .
  have strict: "\<forall>w\<in>set ws. fst w < T" if no: "\<forall>k. \<not> tf k"
  proof
    fix w assume "w \<in> set ws"
    then obtain j where j: "j < length ws" "w = ws ! j" by (auto simp: in_set_conv_nth)
    then have "timer_taken tf T j (max (mon_started m) ((?nxt ^^ Suc j) (mon_t0 m)))"
      using len by blast
    then have "max (mon_started m) ((?nxt ^^ Suc j) (mon_t0 m)) < T"
      using no by (simp add: timer_taken_def)
    then show "fst w < T" using nth j by simp
  qed
  from d st all_fuel nth len bounded strict show ?thesis by blast
qed

text \<open>
  The first firing of the sample job: the monitored call runs from 1 to 4 and its monitor
  warns at 2 and 3.
\<close>

theorem monitor_warnings_up_to_cancellation_witness:
  "inv_monitor (hd (invocations (StartJob (sample_params False) (sample_world 3 None False) 1)))
     = Some \<lparr>mon_t0 = 1, mon_started = 1, mon_done = Some 4, mon_logger = []\<rparr>
   \<and> inv_end (hd (invocations (StartJob (sample_params False) (sample_world 3 None False) 1)))
     = Some 4
   \<and> monitorJob 9 (\<lambda>k. False) (Some 4) (\<lambda>t. t + 1) 1 [] 1
     = Some [(2, [], WarnLevel, still_running 1 1), (3, [], WarnLevel, still_running 1 2)]"
  using monitor_warnings_up_to_cancellation
    [where P = "sample_params False"
       and i = "hd (invocations (StartJob (sample_params False) (sample_world 3 None False) 1))"
       and W = "sample_world 3 None False" and n = 1
       and m = "\<lparr>mon_t0 = 1, mon_started = 1, mon_done = Some 4, mon_logger = []\<rparr>"
       and T = 4 and tf = "\<lambda>k. False"]
  by (simp add: eval_defs monitorJob_def eval_nat_numeral time_Until_def)

text \<open>
  C3 as stated fails. With overlap enabled and jobs of 6 units, the second pass fires at
  7 for the schedule point 2. Its call cannot start the subprocess and returns at once:
  the monitor is cancelled at 7. The schedule points 3 to 7 have been reached, so each
  select of the monitor finds the timer ready as well as the cancellation; taking the
  timer, it warns five times that the job is still running, after the call has returned.
\<close>

theorem monitor_warns_at_cancellation:
  "overlapping (sample_params True)
   \<and> inv_start (invocations (StartJob (sample_params True) late_world 2) ! 2) = 7
   \<and> inv_end (invocations (StartJob (sample_params True) late_world 2) ! 2) = Some 7
   \<and> inv_monitor (invocations (StartJob (sample_params True) late_world 2) ! 2)
       = Some \<lparr>mon_t0 = 2, mon_started = 7, mon_done = Some 7, mon_logger = []\<rparr>
   \<and> monitorJob 9 (timer_first late_world) (Some 7) (Expression (job (sample_params True))) 2 [] 7
       = Some [(7, [], WarnLevel, still_running 2 1), (7, [], WarnLevel, still_running 2 2),
               (7, [], WarnLevel, still_running 2 3), (7, [], WarnLevel, still_running 2 4),
               (7, [], WarnLevel, still_running 2 5)]"
  by (simp add: eval_defs late_world_def failing_process_def monitorJob_def eval_nat_numeral
        time_Until_def)

text \<open>
  C9. The schedule returns a time after its argument; the monitor starts at \<open>started\<close>
  and its call returns at \<open>T\<close>, later than \<open>started\<close> by less than the largest duration.
  Then the monitor returns, and its warnings are these: the j-th warning is about the
  j-th schedule point after \<open>t0\<close>, emitted when that point is reached (at once when it
  has passed); there is a warning for every schedule point before \<open>T\<close>, one more for a
  schedule point at \<open>T\<close> itself when the select takes the timer there, and no other.
  So when m schedule points lie before \<open>T\<close>, exactly m warnings are emitted before the
  call returns.
\<close>

theorem monitor_warns_once_per_missed_point:
  assumes inc: "\<forall>t. t < nxt t" and lt: "started < T" and dur: "T - started < maxDuration"
  shows "\<exists>ws.
      (\<forall>fuel. nat (T + 1 - t0) + nat (T + 1 - started) < fuel \<longrightarrow>
         monitorJob fuel tf (Some T) nxt t0 lg started = Some ws)
    \<and> (\<forall>j<length ws. ws ! j = (max started ((nxt ^^ Suc j) t0), lg, WarnLevel,
                              still_running t0 (time_Sub ((nxt ^^ Suc j) t0) t0)))
    \<and> (\<forall>j. j < length ws \<longleftrightarrow> (nxt ^^ Suc j) t0 < T \<or> ((nxt ^^ Suc j) t0 = T \<and> tf j))
    \<and> (\<forall>m. (nxt ^^ m) t0 < T \<and> T \<le> (nxt ^^ Suc m) t0 \<longrightarrow>
          length (filter (\<lambda>w. fst w < T) ws) = m)"
proof -
  let ?b = "nat (T + 1 - t0) + nat (T + 1 - started)"
  let ?p = "\<lambda>j. (nxt ^^ j) t0"
  have le: "started \<le> T" using lt by simp
  obtain ws where ws: "monitor_loop (Suc ?b) tf (Some T) nxt t0 lg t0 started 0 = Some ws"
    using monitor_loop_terminates [OF inc le, of t0 "Suc ?b" tf t0 lg 0] by auto
  have all_fuel: "\<forall>fuel. ?b < fuel \<longrightarrow> monitorJob fuel tf (Some T) nxt t0 lg started = Some ws"
    using monitor_loop_more_fuel [OF ws] by (simp add: monitorJob_def)
  from monitor_loop_warnings [OF inc ws le dur]
  have nth: "\<forall>j<length ws. ws ! j = (max started (?p (Suc j)), lg, WarnLevel,
                              still_running t0 (time_Sub (?p (Suc j)) t0))"
    and len0: "\<forall>j. j < length ws \<longleftrightarrow> (\<forall>i\<le>j. timer_taken tf T (0 + i) (max started (?p (Suc i))))"
    by blast+
  have taken: "timer_taken tf T i (max started (?p (Suc i))) \<longleftrightarrow>
               ?p (Suc i) < T \<or> (?p (Suc i) = T \<and> tf i)" for i
    using lt by (auto simp: timer_taken_def max_def)
  have len: "j < length ws \<longleftrightarrow> ?p (Suc j) < T \<or> (?p (Suc j) = T \<and> tf j)" for j
  proof
    assume "j < length ws"
    then have "timer_taken tf T j (max started (?p (Suc j)))" using len0 by auto
    then show "?p (Suc j) < T \<or> (?p (Suc j) = T \<and> tf j)" using taken by blast
  next
    assume r: "?p (Suc j) < T \<or> (?p (Suc j) = T \<and> tf j)"
    have "timer_taken tf T i (max started (?p (Suc i)))" if "i \<le> j" for i
    proof (cases "i = j")
      case True
      then show ?thesis using r taken by blast
    next
      case False
      then have "?p (Suc i) < ?p (Suc j)"
        using funpow_strict_mono [OF inc, of "Suc i" "Suc j" t0] that by simp
      then have "?p (Suc i) < T" using r by linarith
      then show ?thesis using taken by blast
    qed
    then show "j < length ws" using len0 by simp
  qed
  have count: "length (filter (\<lambda>w. fst w < T) ws) = m"
    if m: "?p m < T" "T \<le> ?p (Suc m)" for m
  proof (rule filter_initial_segment)
    show "\<forall>j<length ws. (fst (ws ! j) < T) = (j < m)"
    proof (intro allI impI)
      fix j assume j: "j < length ws"
      have "fst (ws ! j) = max started (?p (Suc j))" using nth j by simp
      moreover have "?p (Suc j) < T \<longleftrightarrow> j < m"
      proof
        assume a: "?p (Suc j) < T"
        show "j < m"
        proof (rule ccontr)
          assume "\<not> j < m"
          then have "m = j \<or> Suc m < Suc j" by linarith
          then have "?p (Suc m) \<le> ?p (Suc j)"
            using funpow_strict_mono [OF inc, of "Suc m" "Suc j" t0] by auto
          then show False using a m(2) by linarith
        qed
      next
        assume "j < m"
        then have "Suc j = m \<or> Suc j < m" by linarith
        then have "?p (Suc j) \<le> ?p m"
          using funpow_strict_mono [OF inc, of "Suc j" m t0] by auto
        then show "?p (Suc j) < T" using m(1) by linarith
      qed
      ultimately show "(fst (ws ! j) < T) = (j < m)" using lt by simp
    qed
  next
    show "m \<le> length ws"
    proof (cases m)
      case 0
      then show ?thesis by simp
    next
      case (Suc m')
      then have "?p (Suc m') < T" using m(1) by simp
      then have "m' < length ws" using len by blast
      then show ?thesis using Suc by simp
    qed
  qed
  from all_fuel nth len count show ?thesis by blast
qed

theorem monitor_warns_once_per_missed_point_witness:
  "monitorJob 9 (\<lambda>k. False) (Some 3) (\<lambda>t. t + 1) 0 [] 0
     = Some [(1, [], WarnLevel, still_running 0 1), (2, [], WarnLevel, still_running 0 2)]
   \<and> (\<exists>ws. monitorJob 9 (\<lambda>k. True) (Some 3) (\<lambda>t. t + 1) 0 [] 0 = Some ws
        \<and> length (filter (\<lambda>w. fst w < 3) ws) = 2)"
  using monitor_warns_once_per_missed_point [of "\<lambda>t. t + 1" 0 3 0 "\<lambda>k. False" "[]"]
        monitor_warns_once_per_missed_point [of "\<lambda>t. t + 1" 0 3 0 "\<lambda>k. True" "[]"]
  by (simp add: monitorJob_def eval_nat_numeral select_timer_def time_After_def time_Until_def
        time_Sub_def maxDuration_def minDuration_def Let_def)

end
